theory Spec2Isabelle
  imports Complex_Main "HOL-Library.Sublist"
begin

section \<open>The ANSI parser of ServiceLog.tsx\<close>

text \<open>
  A JavaScript string is modelled as a \<^typ>\<open>string\<close> (a list of characters); the
  parser only ever tells the escape character, the bracket, the digits, the semicolon
  and the letter m apart from everything else, so the width of a code unit plays no role.
  The field \<^verbatim>\<open>text\<close> of the source is written \<open>span_text\<close> (and likewise for the
  other fields), \<^verbatim>\<open>undefined\<close> for a colour is \<open>None\<close>.
\<close>

definition ESC :: char where
  "ESC = CHR 0x1B"

text \<open>\<^verbatim>\<open>ANSI_COLORS\<close>: the table from SGR colour code to CSS colour.\<close>

definition ANSI_COLORS :: "nat \<rightharpoonup> string" where
  "ANSI_COLORS = map_of
     [(30, ''#555''), (31, ''#c00''), (32, ''#0a0''), (33, ''#a50''),
      (34, ''#00c''), (35, ''#c0c''), (36, ''#0cc''), (37, ''#ccc''),
      (90, ''#888''), (91, ''#f55''), (92, ''#5f5''), (93, ''#ff5''),
      (94, ''#55f''), (95, ''#f5f''), (96, ''#5ff''), (97, ''#fff'')]"

record AnsiSpan =
  span_text :: string
  span_color :: "string option"
  span_bold :: bool

text \<open>The two local variables \<^verbatim>\<open>color\<close> and \<^verbatim>\<open>bold\<close> of \<^verbatim>\<open>parseAnsi\<close>.\<close>

type_synonym style = "string option \<times> bool"

definition mk_span :: "string \<Rightarrow> style \<Rightarrow> AnsiSpan" where
  "mk_span t st = \<lparr>span_text = t, span_color = fst st, span_bold = snd st\<rparr>"

text \<open>The character class \<^verbatim>\<open>[0-9;]\<close> of the regular expression.\<close>

definition is_digit :: "char \<Rightarrow> bool" where
  "is_digit c = (c \<in> set ''0123456789'')"

definition is_param_char :: "char \<Rightarrow> bool" where
  "is_param_char c = (is_digit c \<or> c = CHR '';'')"

text \<open>
  One attempt of the regular expression \<^verbatim>\<open>/\x1b\[([0-9;]*)m/\<close> at the head of a
  suffix of the text: the escape character, the bracket, the longest run of digits and
  semicolons, then the letter m. The letter m is not in the class, so a shorter run
  never helps and the greedy run decides. The result is the capture group and the
  length of the match.
\<close>

definition match_here :: "string \<Rightarrow> (string \<times> nat) option" where
  "match_here s =
     (case s of
        e # b # rest \<Rightarrow>
          if e = ESC \<and> b = CHR ''['' then
            (case dropWhile is_param_char rest of
               m # _ \<Rightarrow>
                 if m = CHR ''m''
                 then Some (takeWhile is_param_char rest,
                            length (takeWhile is_param_char rest) + 3)
                 else None
             | [] \<Rightarrow> None)
          else None
      | _ \<Rightarrow> None)"

text \<open>
  \<^verbatim>\<open>re.exec(text)\<close> of the global regular expression, started at \<^verbatim>\<open>re.lastIndex = i\<close>:
  the leftmost position from \<open>i\<close> on where the expression matches. The result is
  \<^verbatim>\<open>match.index\<close>, the capture group \<^verbatim>\<open>match[1]\<close> and the new \<^verbatim>\<open>re.lastIndex\<close>;
  \<open>None\<close> is JavaScript's \<^verbatim>\<open>null\<close>.
\<close>

function re_exec :: "string \<Rightarrow> nat \<Rightarrow> (nat \<times> string \<times> nat) option" where
  "re_exec line i =
     (if length line < i then None
      else (case match_here (drop i line) of
              Some (ps, n) \<Rightarrow> Some (i, ps, i + n)
            | None \<Rightarrow> re_exec line (Suc i)))"
  by pat_completeness auto
termination
  by (relation "measure (\<lambda>(line, i). Suc (length line) - i)") auto

text \<open>
  \<^verbatim>\<open>String.prototype.split(';')\<close>: the pieces between the semicolons, empty pieces
  kept; \<open>cur\<close> is the piece being read.
\<close>

fun split_from :: "string \<Rightarrow> string \<Rightarrow> string list" where
  "split_from cur [] = [cur]"
| "split_from cur (c # cs) =
     (if c = CHR '';'' then cur # split_from [] cs else split_from (cur @ [c]) cs)"

definition split_semicolon :: "string \<Rightarrow> string list" where
  "split_semicolon s = split_from [] s"

text \<open>
  \<^verbatim>\<open>Number\<close> on a piece of the capture group. A piece holds decimal digits only, and
  \<^verbatim>\<open>Number('')\<close> is 0. A piece too long for a double is rounded by JavaScript to a
  value of at least \<open>10 ^ 20\<close>, or to Infinity, which is as far from every code the
  parser knows as the exact number is.
\<close>

definition digit_value :: "char \<Rightarrow> nat" where
  "digit_value c = of_char c - 48"

definition Number :: "string \<Rightarrow> nat" where
  "Number s = foldl (\<lambda>a c. 10 * a + digit_value c) 0 s"

text \<open>\<^verbatim>\<open>match[1] ? match[1].split(';').map(Number) : [0]\<close>\<close>

definition params_of :: "string \<Rightarrow> nat list" where
  "params_of g = (if g \<noteq> [] then map Number (split_semicolon g) else [0])"

text \<open>The body of the loop over the codes of one escape sequence.\<close>

definition apply_code :: "style \<Rightarrow> nat \<Rightarrow> style" where
  "apply_code st code =
     (if code = 0 then (None, False)
      else if code = 1 then (fst st, True)
      else if code = 39 then (None, snd st)
      else (case ANSI_COLORS code of
              Some c \<Rightarrow> (Some c, snd st)
            | None \<Rightarrow> st))"

definition apply_params :: "style \<Rightarrow> nat list \<Rightarrow> style" where
  "apply_params st codes = foldl apply_code st codes"

lemma match_here_length:
  assumes "match_here s = Some (ps, n)"
  shows "n = length ps + 3" and "n \<le> length s"
proof -
  obtain rest where s: "s = ESC # CHR ''['' # rest"
    using assms by (auto simp: match_here_def split: list.splits if_splits)
  obtain r where d: "dropWhile is_param_char rest = CHR ''m'' # r"
    and ps: "ps = takeWhile is_param_char rest" and n: "n = length ps + 3"
    using assms s by (auto simp: match_here_def split: list.splits if_splits)
  show "n = length ps + 3" by (rule n)
  have "length rest = length ps + length (dropWhile is_param_char rest)"
    unfolding ps by (metis length_append takeWhile_dropWhile_id)
  then show "n \<le> length s" using s d n by simp
qed

lemma re_exec_bounds:
  "re_exec line i = Some (idx, ps, e) \<Longrightarrow> i \<le> idx \<and> idx < e \<and> e \<le> length line"
proof (induction line i rule: re_exec.induct)
  case (1 line i)
  show ?case
  proof (cases "length line < i")
    case True
    with "1.prems" show ?thesis by simp
  next
    case False
    show ?thesis
    proof (cases "match_here (drop i line)")
      case None
      with False "1.prems" have "re_exec line (Suc i) = Some (idx, ps, e)" by simp
      with "1.IH" False None show ?thesis by fastforce
    next
      case (Some a)
      obtain qs n where a: "a = (qs, n)" by (cases a)
      from Some a False "1.prems" have eq: "idx = i" "e = i + n" by simp_all
      from match_here_length [OF Some [unfolded a]] False
      have "n = length qs + 3" "n \<le> length line - i" by simp_all
      with eq False show ?thesis by simp
    qed
  qed
qed

text \<open>
  The \<^verbatim>\<open>while\<close> loop of \<^verbatim>\<open>parseAnsi\<close>. The variable \<^verbatim>\<open>lastIndex\<close> and the
  expression's own \<^verbatim>\<open>re.lastIndex\<close> are both 0 at the start and are made equal after
  every match, so one index stands for both. When \<^verbatim>\<open>exec\<close> returns \<^verbatim>\<open>null\<close> the
  loop ends and the rest of the text, if any, is pushed.
\<close>

function parseAnsi_loop :: "string \<Rightarrow> nat \<Rightarrow> style \<Rightarrow> AnsiSpan list \<Rightarrow> AnsiSpan list" where
  "parseAnsi_loop line lastIndex st spans =
     (case re_exec line lastIndex of
        Some (idx, g, e) \<Rightarrow>
          parseAnsi_loop line e (apply_params st (params_of g))
            (if lastIndex < idx
             then spans @ [mk_span (take (idx - lastIndex) (drop lastIndex line)) st]
             else spans)
      | None \<Rightarrow>
          (if lastIndex < length line
           then spans @ [mk_span (drop lastIndex line) st]
           else spans))"
  by pat_completeness auto
termination
proof (relation "measure (\<lambda>(line, lastIndex, st, spans). length line - lastIndex)", goal_cases)
  case 1
  show ?case by simp
next
  case (2 line lastIndex st spans x2 idx y g e)
  then have "re_exec line lastIndex = Some (idx, g, e)" by simp
  from re_exec_bounds [OF this]
  have "length line - e < length line - lastIndex" by linarith
  then show ?case by simp
qed

declare parseAnsi_loop.simps [simp del]

definition parseAnsi :: "string \<Rightarrow> AnsiSpan list" where
  "parseAnsi line = parseAnsi_loop line 0 (None, False) []"

section \<open>The text of a line without its escape sequences\<close>

text \<open>
  The specification's side of the round trip, written from its words and not from the
  parser: a well-formed SGR escape sequence is the escape character, an opening bracket,
  any number of digits and semicolons, and the letter m.
\<close>

definition is_sgr :: "string \<Rightarrow> bool" where
  "is_sgr w =
     (case w of
        e # b # rest \<Rightarrow>
          e = ESC \<and> b = CHR ''['' \<and> rest \<noteq> [] \<and> last rest = CHR ''m'' \<and>
          list_all is_param_char (butlast rest)
      | _ \<Rightarrow> False)"

lemma is_sgr_iff:
  "is_sgr w \<longleftrightarrow> (\<exists>ps. w = ESC # CHR ''['' # ps @ ''m'' \<and> list_all is_param_char ps)"
proof
  assume "is_sgr w"
  then obtain rest where w: "w = ESC # CHR ''['' # rest" and r: "rest \<noteq> []"
    "last rest = CHR ''m''" "list_all is_param_char (butlast rest)"
    by (auto simp: is_sgr_def split: list.splits)
  from r have "rest = butlast rest @ ''m''"
    by (metis append_butlast_last_id)
  with w r show "\<exists>ps. w = ESC # CHR ''['' # ps @ ''m'' \<and> list_all is_param_char ps"
    by blast
next
  assume "\<exists>ps. w = ESC # CHR ''['' # ps @ ''m'' \<and> list_all is_param_char ps"
  then show "is_sgr w" by (auto simp: is_sgr_def)
qed

lemma is_sgr_nonempty: "is_sgr w \<Longrightarrow> w \<noteq> []"
  by (auto simp: is_sgr_def)

lemma find_SomeD: "find P xs = Some x \<Longrightarrow> P x \<and> x \<in> set xs"
  by (induction xs) (auto split: if_splits)

lemma find_sgr_shorter:
  assumes "find is_sgr (prefixes (c # cs)) = Some w"
  shows "Suc (length cs) - length w < Suc (length cs)"
proof -
  from find_SomeD [OF assms] have "w \<noteq> []" by (auto dest: is_sgr_nonempty)
  then show ?thesis by (cases w) simp_all
qed

text \<open>
  The line with every well-formed SGR sequence removed, read from left to right: where
  a prefix of what is left is such a sequence, the sequence is dropped, and any other
  character is kept. Two such sequences never overlap, since the escape character
  only stands at the head of one.
\<close>

function strip_sgr :: "string \<Rightarrow> string" where
  "strip_sgr s =
     (case s of
        [] \<Rightarrow> []
      | c # cs \<Rightarrow>
          (case find is_sgr (prefixes s) of
             Some w \<Rightarrow> strip_sgr (drop (length w) s)
           | None \<Rightarrow> c # strip_sgr cs))"
  by pat_completeness auto
termination
  by (relation "measure length") (simp_all del: prefixes.simps add: find_sgr_shorter)

lemma not_param_m: "\<not> is_param_char CHR ''m''"
  by (simp add: is_param_char_def is_digit_def)

lemma match_here_sgr:
  assumes "list_all is_param_char ps"
  shows "match_here (ESC # CHR ''['' # ps @ CHR ''m'' # r) = Some (ps, length ps + 3)"
proof -
  have "takeWhile is_param_char (ps @ CHR ''m'' # r) = ps"
    using assms not_param_m by (simp add: list_all_iff takeWhile_append2)
  moreover have "dropWhile is_param_char (ps @ CHR ''m'' # r) = CHR ''m'' # r"
    using assms not_param_m by (simp add: list_all_iff dropWhile_append2)
  ultimately show ?thesis by (simp add: match_here_def)
qed

lemma match_here_shape:
  assumes "match_here s = Some (ps, n)"
  shows "\<exists>r. s = ESC # CHR ''['' # ps @ CHR ''m'' # r \<and> list_all is_param_char ps \<and> n = length ps + 3"
proof -
  obtain rest where s: "s = ESC # CHR ''['' # rest"
    using assms by (auto simp: match_here_def split: list.splits if_splits)
  obtain r where d: "dropWhile is_param_char rest = CHR ''m'' # r"
    and ps: "ps = takeWhile is_param_char rest" and n: "n = length ps + 3"
    using assms s by (auto simp: match_here_def split: list.splits if_splits)
  have "rest = ps @ CHR ''m'' # r"
    using d ps by (metis takeWhile_dropWhile_id)
  moreover have "list_all is_param_char ps"
    unfolding ps list_all_iff by (auto dest: set_takeWhileD)
  ultimately show ?thesis using s n by blast
qed

lemma find_sgr_prefix:
  "find is_sgr (prefixes s) = map_option (\<lambda>(ps, n). take n s) (match_here s)"
proof (cases "match_here s")
  case None
  have "\<not> is_sgr w" if "prefix w s" for w
  proof
    assume "is_sgr w"
    then obtain ps where w: "w = ESC # CHR ''['' # ps @ ''m''" and p: "list_all is_param_char ps"
      unfolding is_sgr_iff by blast
    from that obtain r where "s = w @ r" by (auto simp: prefix_def)
    with w have "s = ESC # CHR ''['' # ps @ CHR ''m'' # r" by simp
    with match_here_sgr [OF p] None show False by simp
  qed
  then have "find is_sgr (prefixes s) = None"
    by (simp add: find_None_iff)
  with None show ?thesis by simp
next
  case (Some a)
  obtain ps n where a: "a = (ps, n)" by (cases a)
  from match_here_shape [OF Some [unfolded a]] obtain r where
    s: "s = ESC # CHR ''['' # ps @ CHR ''m'' # r" and p: "list_all is_param_char ps"
    and n: "n = length ps + 3" by blast
  have tk: "take n s = ESC # CHR ''['' # ps @ ''m''" using s n by (simp add: numeral_3_eq_3)
  then have sg: "is_sgr (take n s)" using p unfolding is_sgr_iff by blast
  have "take n s \<in> set (prefixes s)" by (simp add: take_is_prefix)
  with sg have "find is_sgr (prefixes s) \<noteq> None" by (auto simp: find_None_iff)
  then obtain w where f: "find is_sgr (prefixes s) = Some w" by blast
  then have "is_sgr w" "w \<in> set (prefixes s)"
    by (auto dest: find_SomeD)
  then obtain qs r' where w: "w = ESC # CHR ''['' # qs @ ''m''" and q: "list_all is_param_char qs"
    and s': "s = w @ r'" unfolding is_sgr_iff by (auto simp: prefix_def)
  from w s' have "s = ESC # CHR ''['' # qs @ CHR ''m'' # r'" by simp
  with match_here_sgr [OF q] Some a have "qs = ps" by simp
  with w tk have "w = take n s" by simp
  with f Some a show ?thesis by simp
qed

lemma strip_sgr_Nil: "strip_sgr [] = []"
  by simp

lemma strip_sgr_keep: "match_here (c # cs) = None \<Longrightarrow> strip_sgr (c # cs) = c # strip_sgr cs"
  by (subst strip_sgr.simps) (simp add: find_sgr_prefix del: prefixes.simps)

lemma strip_sgr_drop:
  assumes "match_here s = Some (ps, n)"
  shows "strip_sgr s = strip_sgr (drop n s)"
proof -
  from match_here_length [OF assms] have "n \<le> length s" "0 < n" by simp_all
  then obtain c cs where s: "s = c # cs" by (cases s) auto
  have "find is_sgr (prefixes s) = Some (take n s)"
    using assms by (simp add: find_sgr_prefix)
  with s \<open>n \<le> length s\<close> show ?thesis
    by (subst strip_sgr.simps) (simp del: prefixes.simps strip_sgr.simps add: min_def)
qed

lemma match_here_Nil: "match_here [] = None"
  by (simp add: match_here_def)

lemma re_exec_strip:
  assumes "i \<le> length line"
  shows "case re_exec line i of
           None \<Rightarrow> strip_sgr (drop i line) = drop i line
         | Some (idx, g, e) \<Rightarrow>
             strip_sgr (drop i line) = take (idx - i) (drop i line) @ strip_sgr (drop e line)"
  using assms
proof (induction line i rule: re_exec.induct)
  case (1 line i)
  show ?case
  proof (cases "match_here (drop i line)")
    case (Some a)
    obtain ps n where a: "a = (ps, n)" by (cases a)
    from Some a "1.prems" have r: "re_exec line i = Some (i, ps, i + n)" by simp
    from strip_sgr_drop [OF Some [unfolded a]]
    have "strip_sgr (drop i line) = strip_sgr (drop (i + n) line)"
      by (simp add: add.commute)
    with r show ?thesis by simp
  next
    case None
    with "1.prems" have r: "re_exec line i = re_exec line (Suc i)" by simp
    show ?thesis
    proof (cases "i = length line")
      case True
      then have "re_exec line (Suc i) = None" by simp
      with r True show ?thesis by simp
    next
      case False
      with "1.prems" have lt: "i < length line" by simp
      then have d: "drop i line = line ! i # drop (Suc i) line"
        by (simp add: Cons_nth_drop_Suc)
      from None d have k: "strip_sgr (drop i line) = line ! i # strip_sgr (drop (Suc i) line)"
        by (metis strip_sgr_keep)
      from lt have "Suc i \<le> length line" by simp
      with "1.IH" "1.prems" None
      have ih: "case re_exec line (Suc i) of
                  None \<Rightarrow> strip_sgr (drop (Suc i) line) = drop (Suc i) line
                | Some (idx, g, e) \<Rightarrow>
                    strip_sgr (drop (Suc i) line) =
                    take (idx - Suc i) (drop (Suc i) line) @ strip_sgr (drop e line)"
        by simp
      show ?thesis
      proof (cases "re_exec line (Suc i)")
        case None
        with ih r k d show ?thesis by simp
      next
        case (Some b)
        obtain idx g e where b: "b = (idx, g, e)" by (cases b)
        from re_exec_bounds [OF Some [unfolded b]] have "Suc i \<le> idx" by simp
        then have "idx - i = Suc (idx - Suc i)" by simp
        with ih r k d Some b show ?thesis by simp
      qed
    qed
  qed
qed

lemma parseAnsi_loop_concat:
  "lastIndex \<le> length line \<Longrightarrow>
   concat (map span_text (parseAnsi_loop line lastIndex st spans)) =
   concat (map span_text spans) @ strip_sgr (drop lastIndex line)"
proof (induction line lastIndex st spans rule: parseAnsi_loop.induct)
  case (1 line lastIndex st spans)
  note rs = re_exec_strip [OF "1.prems"]
  show ?case
  proof (cases "re_exec line lastIndex")
    case None
    with rs have "strip_sgr (drop lastIndex line) = drop lastIndex line" by simp
    with None "1.prems" show ?thesis
      by (subst parseAnsi_loop.simps) (simp add: mk_span_def)
  next
    case (Some b)
    obtain idx g e where b: "b = (idx, g, e)" by (cases b)
    from re_exec_bounds [OF Some [unfolded b]]
    have bd: "lastIndex \<le> idx" "idx < e" "e \<le> length line" by simp_all
    from rs Some b
    have st: "strip_sgr (drop lastIndex line) =
              take (idx - lastIndex) (drop lastIndex line) @ strip_sgr (drop e line)"
      by simp
    have ih: "concat (map span_text (parseAnsi_loop line e (apply_params st (params_of g))
                (if lastIndex < idx
                 then spans @ [mk_span (take (idx - lastIndex) (drop lastIndex line)) st]
                 else spans))) =
              concat (map span_text
                (if lastIndex < idx
                 then spans @ [mk_span (take (idx - lastIndex) (drop lastIndex line)) st]
                 else spans)) @ strip_sgr (drop e line)"
      using "1.IH" [OF Some [unfolded b] refl refl bd(3)] .
    have "parseAnsi_loop line lastIndex st spans =
          parseAnsi_loop line e (apply_params st (params_of g))
                (if lastIndex < idx
                 then spans @ [mk_span (take (idx - lastIndex) (drop lastIndex line)) st]
                 else spans)"
      using Some b by (subst parseAnsi_loop.simps) simp
    with ih st bd show ?thesis
      by (cases "lastIndex < idx")
        (simp_all add: mk_span_def del: parseAnsi_loop.simps strip_sgr.simps re_exec.simps)
  qed
qed

text \<open>
  Claim C1. For every line, the texts of the runs that \<open>parseAnsi\<close> returns, put
  together in order, are the line with every well-formed SGR escape sequence removed.
\<close>

theorem parseAnsi_text_roundtrip:
  "concat (map span_text (parseAnsi line)) = strip_sgr line"
  unfolding parseAnsi_def by (simp add: parseAnsi_loop_concat del: parseAnsi_loop.simps strip_sgr.simps)

section \<open>What the parser does with each character\<close>

text \<open>
  The runs of a line read character by character: every character of a run with the
  colour and weight of its run.
\<close>

definition styled_runs :: "AnsiSpan list \<Rightarrow> (char \<times> style) list" where
  "styled_runs spans =
     concat (map (\<lambda>sp. map (\<lambda>c. (c, (span_color sp, span_bold sp))) (span_text sp)) spans)"

text \<open>
  The same reading taken from the line itself: a well-formed SGR sequence shows no
  character and changes the style by its codes; every other character, one of a
  sequence that is not well formed included, is shown in the style current there and
  leaves the style alone.
\<close>

function styled_chars :: "style \<Rightarrow> string \<Rightarrow> (char \<times> style) list" where
  "styled_chars st s =
     (case s of
        [] \<Rightarrow> []
      | c # cs \<Rightarrow>
          (case find is_sgr (prefixes s) of
             Some w \<Rightarrow>
               styled_chars (apply_params st (params_of (butlast (drop 2 w))))
                 (drop (length w) s)
           | None \<Rightarrow> (c, st) # styled_chars st cs))"
  by pat_completeness auto
termination
  by (relation "measure (\<lambda>(st, s). length s)")
    (simp_all del: prefixes.simps add: find_sgr_shorter)

declare styled_chars.simps [simp del]

lemma styled_chars_Nil: "styled_chars st [] = []"
  by (simp add: styled_chars.simps)

lemma styled_chars_keep:
  "match_here (c # cs) = None \<Longrightarrow> styled_chars st (c # cs) = (c, st) # styled_chars st cs"
  by (subst styled_chars.simps) (simp add: find_sgr_prefix del: prefixes.simps)

lemma styled_chars_drop:
  assumes "match_here s = Some (ps, n)"
  shows "styled_chars st s = styled_chars (apply_params st (params_of ps)) (drop n s)"
proof -
  from match_here_shape [OF assms] obtain r where
    s: "s = ESC # CHR ''['' # ps @ CHR ''m'' # r" and n: "n = length ps + 3" by blast
  have tk: "take n s = ESC # CHR ''['' # ps @ ''m''"
    using s n by (simp add: numeral_3_eq_3)
  have g: "butlast (drop 2 (take n s)) = ps"
    unfolding tk by (simp add: butlast_append)
  have len: "length (take n s) = n" using s n by simp
  have "find is_sgr (prefixes s) = Some (take n s)"
    using assms by (simp add: find_sgr_prefix)
  then have "styled_chars st s =
      styled_chars (apply_params st (params_of (butlast (drop 2 (take n s)))))
        (drop (length (take n s)) s)"
    using s by (subst styled_chars.simps) (simp del: prefixes.simps)
  then show ?thesis unfolding g len .
qed

lemma re_exec_styled:
  assumes "i \<le> length line"
  shows "case re_exec line i of
           None \<Rightarrow> styled_chars st (drop i line) = map (\<lambda>c. (c, st)) (drop i line)
         | Some (idx, g, e) \<Rightarrow>
             styled_chars st (drop i line) =
             map (\<lambda>c. (c, st)) (take (idx - i) (drop i line)) @
             styled_chars (apply_params st (params_of g)) (drop e line)"
  using assms
proof (induction line i rule: re_exec.induct)
  case (1 line i)
  show ?case
  proof (cases "match_here (drop i line)")
    case (Some a)
    obtain ps n where a: "a = (ps, n)" by (cases a)
    from Some a "1.prems" have r: "re_exec line i = Some (i, ps, i + n)" by simp
    from styled_chars_drop [OF Some [unfolded a]]
    have "styled_chars st (drop i line) =
          styled_chars (apply_params st (params_of ps)) (drop (i + n) line)"
      by (simp add: add.commute)
    with r show ?thesis by simp
  next
    case None
    with "1.prems" have r: "re_exec line i = re_exec line (Suc i)" by simp
    show ?thesis
    proof (cases "i = length line")
      case True
      then have "re_exec line (Suc i) = None" by simp
      with r True show ?thesis by (simp add: styled_chars_Nil)
    next
      case False
      with "1.prems" have lt: "i < length line" by simp
      then have d: "drop i line = line ! i # drop (Suc i) line"
        by (simp add: Cons_nth_drop_Suc)
      from None d have k: "styled_chars st (drop i line) =
          (line ! i, st) # styled_chars st (drop (Suc i) line)"
        by (metis styled_chars_keep)
      from lt have "Suc i \<le> length line" by simp
      with "1.IH" "1.prems" None
      have ih: "case re_exec line (Suc i) of
                  None \<Rightarrow> styled_chars st (drop (Suc i) line) =
                         map (\<lambda>c. (c, st)) (drop (Suc i) line)
                | Some (idx, g, e) \<Rightarrow>
                    styled_chars st (drop (Suc i) line) =
                    map (\<lambda>c. (c, st)) (take (idx - Suc i) (drop (Suc i) line)) @
                    styled_chars (apply_params st (params_of g)) (drop e line)"
        by simp
      show ?thesis
      proof (cases "re_exec line (Suc i)")
        case None
        with ih r k d show ?thesis by simp
      next
        case (Some b)
        obtain idx g e where b: "b = (idx, g, e)" by (cases b)
        from re_exec_bounds [OF Some [unfolded b]] have "Suc i \<le> idx" by simp
        then have "idx - i = Suc (idx - Suc i)" by simp
        with ih r k d Some b show ?thesis by simp
      qed
    qed
  qed
qed

lemma styled_runs_snoc:
  "styled_runs (spans @ [mk_span t st]) = styled_runs spans @ map (\<lambda>c. (c, st)) t"
  by (simp add: styled_runs_def mk_span_def)

lemma parseAnsi_loop_styled:
  "lastIndex \<le> length line \<Longrightarrow>
   styled_runs (parseAnsi_loop line lastIndex st spans) =
   styled_runs spans @ styled_chars st (drop lastIndex line)"
proof (induction line lastIndex st spans rule: parseAnsi_loop.induct)
  case (1 line lastIndex st spans)
  note rs = re_exec_styled [OF "1.prems", of st]
  show ?case
  proof (cases "re_exec line lastIndex")
    case None
    with rs have "styled_chars st (drop lastIndex line) = map (\<lambda>c. (c, st)) (drop lastIndex line)"
      by simp
    with None "1.prems" show ?thesis
      by (subst parseAnsi_loop.simps) (simp add: styled_runs_snoc)
  next
    case (Some b)
    obtain idx g e where b: "b = (idx, g, e)" by (cases b)
    from re_exec_bounds [OF Some [unfolded b]]
    have bd: "lastIndex \<le> idx" "idx < e" "e \<le> length line" by simp_all
    from rs Some b
    have sc: "styled_chars st (drop lastIndex line) =
              map (\<lambda>c. (c, st)) (take (idx - lastIndex) (drop lastIndex line)) @
              styled_chars (apply_params st (params_of g)) (drop e line)"
      by simp
    have ih: "styled_runs (parseAnsi_loop line e (apply_params st (params_of g))
                (if lastIndex < idx
                 then spans @ [mk_span (take (idx - lastIndex) (drop lastIndex line)) st]
                 else spans)) =
              styled_runs
                (if lastIndex < idx
                 then spans @ [mk_span (take (idx - lastIndex) (drop lastIndex line)) st]
                 else spans) @ styled_chars (apply_params st (params_of g)) (drop e line)"
      using "1.IH" [OF Some [unfolded b] refl refl bd(3)] .
    have "parseAnsi_loop line lastIndex st spans =
          parseAnsi_loop line e (apply_params st (params_of g))
                (if lastIndex < idx
                 then spans @ [mk_span (take (idx - lastIndex) (drop lastIndex line)) st]
                 else spans)"
      using Some b by (subst parseAnsi_loop.simps) simp
    with ih sc bd show ?thesis
      by (cases "lastIndex < idx") (simp_all add: styled_runs_snoc del: re_exec.simps)
  qed
qed

lemma malformed_example:
  "styled_chars st (ESC # ''[2J'' @ s) = map (\<lambda>c. (c, st)) (ESC # ''[2J'') @ styled_chars st s"
proof -
  have 1: "match_here (ESC # ''[2J'' @ s) = None"
    by (simp add: match_here_def is_param_char_def is_digit_def)
  have 2: "match_here (''[2J'' @ s) = None" "match_here (''2J'' @ s) = None"
    "match_here (''J'' @ s) = None"
    by (simp_all add: match_here_def ESC_def split: list.splits)
  from 1 2 show ?thesis by (simp add: styled_chars_keep)
qed

lemma parseAnsi_loop_styled_0:
  "styled_runs (parseAnsi line) = styled_chars (None, False) line"
proof -
  have "styled_runs (parseAnsi_loop line 0 (None, False) []) =
        styled_runs [] @ styled_chars (None, False) (drop 0 line)"
    by (rule parseAnsi_loop_styled) simp
  moreover have "styled_runs [] = []" by (simp add: styled_runs_def)
  ultimately show ?thesis by (simp add: parseAnsi_def)
qed

section \<open>Lines without escape sequences, and sequences that are not well formed\<close>

lemma match_here_ESC: "match_here s = Some a \<Longrightarrow> ESC \<in> set s"
  by (auto simp: match_here_def split: list.splits if_splits)

lemma re_exec_no_ESC: "ESC \<notin> set line \<Longrightarrow> re_exec line i = None"
proof (induction line i rule: re_exec.induct)
  case (1 line i)
  have "match_here (drop i line) = None"
  proof (cases "match_here (drop i line)")
    case (Some a)
    from match_here_ESC [OF this] have "ESC \<in> set line" by (auto dest: in_set_dropD)
    with "1.prems" show ?thesis by simp
  qed simp
  with 1 show ?case by simp
qed

lemma parseAnsi_no_ESC:
  "ESC \<notin> set line \<Longrightarrow>
   parseAnsi line =
     (if line = [] then []
      else [\<lparr>span_text = line, span_color = None, span_bold = False\<rparr>])"
  unfolding parseAnsi_def
  by (subst parseAnsi_loop.simps) (simp add: re_exec_no_ESC mk_span_def del: re_exec.simps)

text \<open>
  Claim C5, as amended. A line without the escape character that is not empty gives
  exactly one run, the line itself in the default style (no colour, not bold); the
  empty line gives no run at all.
\<close>

theorem parseAnsi_plain:
  "ESC \<notin> set line \<Longrightarrow>
   parseAnsi line =
     (if line = [] then []
      else [\<lparr>span_text = line, span_color = None, span_bold = False\<rparr>])"
  by (rule parseAnsi_no_ESC)

theorem parseAnsi_plain_witness:
  "ESC \<notin> set ''hello world'' \<and>
   parseAnsi ''hello world'' =
     [\<lparr>span_text = ''hello world'', span_color = None, span_bold = False\<rparr>]"
  using parseAnsi_plain [of "''hello world''"] by (simp add: ESC_def)

text \<open>
  Claim C5 as it is written fails at the empty line, which has no escape sequence and
  gives no run where the claim asks for one.
\<close>

theorem parseAnsi_empty_counterexample:
  "parseAnsi [] = [] \<and>
   parseAnsi [] \<noteq> [\<lparr>span_text = [], span_color = None, span_bold = False\<rparr>]"
  by code_simp

text \<open>
  Claim C4, as amended. The parser returns on every line (the loop is a total function),
  and a sequence that is not well formed is plain text: read character by character, the
  runs are the characters outside the well-formed sequences, each in the style that the
  well-formed sequences before it have set. So the screen-clearing sequence
  \<^verbatim>\<open>ESC [ 2 J\<close> at the head of a line is four characters of text in the default
  style, followed by the runs of the rest; and after a well-formed red, it is text in red.
\<close>

theorem parseAnsi_malformed_is_text:
  "styled_runs (parseAnsi line) = styled_chars (None, False) line \<and>
   styled_runs (parseAnsi (ESC # ''[2J'' @ s)) =
     map (\<lambda>c. (c, (None, False))) (ESC # ''[2J'') @ styled_runs (parseAnsi s) \<and>
   parseAnsi (ESC # ''[31mab'' @ ESC # ''[2Jc'') =
     [\<lparr>span_text = ''ab'' @ ESC # ''[2Jc'', span_color = Some ''#c00'', span_bold = False\<rparr>]"
proof -
  have "parseAnsi (ESC # ''[31mab'' @ ESC # ''[2Jc'') =
     [\<lparr>span_text = ''ab'' @ ESC # ''[2Jc'', span_color = Some ''#c00'', span_bold = False\<rparr>]"
    by code_simp
  then show ?thesis
    by (simp only: parseAnsi_loop_styled_0 malformed_example simp_thms)
qed

text \<open>
  Claim C4 as it is written fails: the sequence \<^verbatim>\<open>ESC [ 2 J\<close> does not match the
  grammar, and it gives a run of its own four characters instead of none.
\<close>

theorem parseAnsi_malformed_counterexample:
  "parseAnsi (ESC # ''[2J'') =
     [\<lparr>span_text = ESC # ''[2J'', span_color = None, span_bold = False\<rparr>] \<and>
   parseAnsi (ESC # ''[2J'') \<noteq> parseAnsi []"
  by code_simp

section \<open>The codes of one escape sequence\<close>

lemma apply_params_snoc:
  "apply_params st (cs @ [c]) = apply_code (apply_params st cs) c"
  by (simp add: apply_params_def)

text \<open>
  Claim C7. The codes of one sequence are applied from left to right, so that a later
  code is applied to what the earlier ones have left (\<^verbatim>\<open>31;32\<close> ends green), and code
  39 takes the colour away and keeps the weight. The two lines of the specification
  parse as it says.
\<close>

theorem parseAnsi_codes_in_order:
  "parseAnsi (ESC # ''[1;32mbold green'' @ ESC # ''[0m'') =
     [\<lparr>span_text = ''bold green'', span_color = Some ''#0a0'', span_bold = True\<rparr>] \<and>
   parseAnsi (ESC # ''[31mred'' @ ESC # ''[39m normal'') =
     [\<lparr>span_text = ''red'', span_color = Some ''#c00'', span_bold = False\<rparr>,
      \<lparr>span_text = '' normal'', span_color = None, span_bold = False\<rparr>] \<and>
   apply_params st (cs @ [c]) = apply_code (apply_params st cs) c \<and>
   apply_params st (params_of ''31;32'') = (Some ''#0a0'', snd st) \<and>
   apply_code (col, b) 39 = (None, b)"
proof -
  have a: "parseAnsi (ESC # ''[1;32mbold green'' @ ESC # ''[0m'') =
     [\<lparr>span_text = ''bold green'', span_color = Some ''#0a0'', span_bold = True\<rparr>]"
    by code_simp
  have b: "parseAnsi (ESC # ''[31mred'' @ ESC # ''[39m normal'') =
     [\<lparr>span_text = ''red'', span_color = Some ''#c00'', span_bold = False\<rparr>,
      \<lparr>span_text = '' normal'', span_color = None, span_bold = False\<rparr>]"
    by code_simp
  have p: "params_of ''31;32'' = [31, 32]" by code_simp
  have c: "apply_params st (params_of ''31;32'') = (Some ''#0a0'', snd st)"
    unfolding p by (simp add: apply_params_def apply_code_def ANSI_COLORS_def)
  have d: "apply_code (col, b) 39 = (None, b)"
    by (simp add: apply_code_def)
  from a b c d apply_params_snoc show ?thesis by blast
qed

lemma Number_Nil: "Number [] = 0"
  by (simp add: Number_def)

lemma apply_code_0: "apply_code st 0 = (None, False)"
  by (simp add: apply_code_def)

text \<open>
  Claim C10. In a parameter string that is not empty, an empty piece between or beside
  the semicolons becomes the code 0, and at its place in the sequence both the colour
  and the weight are cleared, whatever they were. The wholly empty parameter string is
  the one code 0. So \<^verbatim>\<open>ESC [ 1 ; m\<close> ends in the default style and
  \<^verbatim>\<open>ESC [ ; 3 2 m\<close> drops the weight before it sets green.
\<close>

theorem empty_segment_resets:
  "(g \<noteq> [] \<and> i < length (split_semicolon g) \<and> split_semicolon g ! i = [] \<longrightarrow>
      params_of g ! i = 0 \<and>
      apply_params st (take (Suc i) (params_of g)) = (None, False)) \<and>
   params_of [] = [0] \<and>
   parseAnsi (ESC # ''[31mred'' @ ESC # ''[1;mplain'') =
     [\<lparr>span_text = ''red'', span_color = Some ''#c00'', span_bold = False\<rparr>,
      \<lparr>span_text = ''plain'', span_color = None, span_bold = False\<rparr>] \<and>
   parseAnsi (ESC # ''[1mbold'' @ ESC # ''[;32mgreen'') =
     [\<lparr>span_text = ''bold'', span_color = None, span_bold = True\<rparr>,
      \<lparr>span_text = ''green'', span_color = Some ''#0a0'', span_bold = False\<rparr>]"
proof -
  have gen: "params_of g ! i = 0 \<and>
      apply_params st (take (Suc i) (params_of g)) = (None, False)"
    if "g \<noteq> []" "i < length (split_semicolon g)" "split_semicolon g ! i = []"
  proof -
    from that have z: "params_of g ! i = 0" and l: "i < length (params_of g)"
      by (simp_all add: params_of_def Number_Nil)
    from l have "take (Suc i) (params_of g) = take i (params_of g) @ [params_of g ! i]"
      by (rule take_Suc_conv_app_nth)
    with z show ?thesis by (simp add: apply_params_snoc apply_code_0)
  qed
  have e0: "params_of [] = [0]" by (simp add: params_of_def)
  have e1: "parseAnsi (ESC # ''[31mred'' @ ESC # ''[1;mplain'') =
     [\<lparr>span_text = ''red'', span_color = Some ''#c00'', span_bold = False\<rparr>,
      \<lparr>span_text = ''plain'', span_color = None, span_bold = False\<rparr>]"
    by code_simp
  have e2: "parseAnsi (ESC # ''[1mbold'' @ ESC # ''[;32mgreen'') =
     [\<lparr>span_text = ''bold'', span_color = None, span_bold = True\<rparr>,
      \<lparr>span_text = ''green'', span_color = Some ''#0a0'', span_bold = False\<rparr>]"
    by code_simp
  from gen e0 e1 e2 show ?thesis by blast
qed

theorem empty_segment_resets_witness:
  "''1;'' \<noteq> [] \<and> 1 < length (split_semicolon ''1;'') \<and> split_semicolon ''1;'' ! 1 = [] \<and>
   params_of ''1;'' ! 1 = 0 \<and>
   apply_params (Some ''#c00'', True) (take (Suc 1) (params_of ''1;'')) = (None, False)"
  using empty_segment_resets [of "''1;''" 1 "(Some ''#c00'', True)"]
  by (simp add: split_semicolon_def)

section \<open>JavaScript numbers\<close>

text \<open>
  The numbers \<^verbatim>\<open>handleScroll\<close> computes with are IEEE 754 doubles. A finite double is
  given by its exact value, a rational number (the two zeros are the one value 0: they
  differ in nothing that a subtraction followed by a comparison can see); the other
  doubles are the two infinities and NaN.
\<close>

datatype number = NaN | PosInfinity | NegInfinity | Finite rat

text \<open>Powers of two with an integer exponent.\<close>

definition pow2 :: "int \<Rightarrow> rat" where
  "pow2 k = 2 powi k"

text \<open>
  The binade of a positive rational \<open>x\<close>: the exponent \<open>e\<close> with
  \<open>2\<^sup>e \<le> x < 2\<^sup>e\<^sup>+\<^sup>1\<close>, found by halving when \<open>x\<close> is at least 1 and from the
  reciprocal otherwise.
\<close>

function log2_up :: "rat \<Rightarrow> int" where
  "log2_up x = (if x < 2 then 0 else log2_up (x / 2) + 1)"
  by pat_completeness auto
termination
proof (relation "measure (\<lambda>x. nat \<lfloor>x\<rfloor>)", goal_cases)
  case 1
  show ?case by simp
next
  case (2 x)
  then have "x / 2 \<le> x - 1" by simp
  then have "\<lfloor>x / 2\<rfloor> \<le> \<lfloor>x - 1\<rfloor>" by (rule floor_mono)
  moreover from 2 have "2 \<le> \<lfloor>x\<rfloor>" by (simp add: le_floor_iff)
  ultimately show ?case by simp
qed

declare log2_up.simps [simp del]

definition binade :: "rat \<Rightarrow> int" where
  "binade x =
     (if 1 \<le> x then log2_up x
      else (let e = - log2_up (1 / x) in if pow2 e \<le> x then e else e - 1))"

text \<open>The nearest integer, a tie going to the even one.\<close>

definition round_half_even :: "rat \<Rightarrow> int" where
  "round_half_even x =
     (let f = \<lfloor>x\<rfloor>; r = x - of_int f
      in if r < 1 / 2 then f
         else if 1 / 2 < r then f + 1
         else if even f then f else f + 1)"

text \<open>
  The double that an exact result is rounded to (round to nearest, ties to even): 53
  significant bits in the binade of the value, the spacing of the subnormal numbers below
  \<open>2\<^sup>-\<^sup>1\<^sup>0\<^sup>2\<^sup>2\<close>, and an infinity once the rounded value reaches \<open>2\<^sup>1\<^sup>0\<^sup>2\<^sup>4\<close>.
\<close>

definition to_double :: "rat \<Rightarrow> number" where
  "to_double x =
     (if x = 0 then Finite 0
      else (let e = max (binade \<bar>x\<bar>) (- 1022);
                q = pow2 (e - 52);
                y = of_int (round_half_even (x / q)) * q
            in if pow2 1024 \<le> \<bar>y\<bar>
               then (if 0 < x then PosInfinity else NegInfinity)
               else Finite y))"

text \<open>
  The operators \<^verbatim>\<open>-\<close> and \<^verbatim>\<open><\<close> on numbers: the difference of two finite doubles is
  the exact difference rounded; NaN spreads, and so does an infinity, except that equal
  infinities subtract to NaN; no comparison with NaN holds.
\<close>

fun js_sub :: "number \<Rightarrow> number \<Rightarrow> number" where
  "js_sub NaN b = NaN"
| "js_sub a NaN = NaN"
| "js_sub PosInfinity PosInfinity = NaN"
| "js_sub NegInfinity NegInfinity = NaN"
| "js_sub PosInfinity b = PosInfinity"
| "js_sub NegInfinity b = NegInfinity"
| "js_sub (Finite x) PosInfinity = NegInfinity"
| "js_sub (Finite x) NegInfinity = PosInfinity"
| "js_sub (Finite x) (Finite y) = to_double (x - y)"

fun js_less :: "number \<Rightarrow> number \<Rightarrow> bool" where
  "js_less (Finite x) (Finite y) = (x < y)"
| "js_less (Finite x) PosInfinity = True"
| "js_less NegInfinity (Finite y) = True"
| "js_less NegInfinity PosInfinity = True"
| "js_less a b = False"


lemma pow2_pos: "0 < pow2 k"
  by (simp add: pow2_def)

lemma pow2_add: "pow2 (a + b) = pow2 a * pow2 b"
  by (simp add: pow2_def power_int_add)

lemma pow2_0: "pow2 0 = 1"
  by (simp add: pow2_def)

lemma pow2_1: "pow2 1 = 2"
  by (simp add: pow2_def)

lemma pow2_Suc: "pow2 (k + 1) = 2 * pow2 k"
  by (simp add: pow2_add pow2_1)

lemma pow2_minus: "pow2 (- k) = 1 / pow2 k"
  by (simp add: pow2_def power_int_minus_divide)

lemma pow2_mono: "a \<le> b \<Longrightarrow> pow2 a \<le> pow2 b"
  by (simp add: pow2_def power_int_increasing)

lemma pow2_strict_mono: "a < b \<Longrightarrow> pow2 a < pow2 b"
  by (simp add: pow2_def power_int_strict_increasing)

lemma pow2_less_exp: "pow2 a < pow2 b \<Longrightarrow> a < b"
  using pow2_mono [of b a] by (cases "a < b") simp_all

lemma log2_up_bounds:
  "1 \<le> x \<Longrightarrow> 0 \<le> log2_up x \<and> pow2 (log2_up x) \<le> x \<and> x < pow2 (log2_up x + 1)"
proof (induction x rule: log2_up.induct)
  case (1 x)
  show ?case
  proof (cases "x < 2")
    case True
    with "1.prems" show ?thesis by (simp add: log2_up.simps [of x] pow2_0 pow2_1)
  next
    case False
    then have "1 \<le> x / 2" by simp
    with "1.IH" False have ih: "0 \<le> log2_up (x / 2)" "pow2 (log2_up (x / 2)) \<le> x / 2"
      "x / 2 < pow2 (log2_up (x / 2) + 1)" by simp_all
    have eq: "log2_up x = log2_up (x / 2) + 1" using False by (simp add: log2_up.simps [of x])
    from ih(2) have "pow2 (log2_up (x / 2) + 1) \<le> x"
      unfolding pow2_Suc by simp
    moreover from ih(3) have "x < pow2 (log2_up (x / 2) + 1 + 1)"
      unfolding pow2_Suc [of "log2_up (x / 2) + 1"] by simp
    ultimately show ?thesis unfolding eq using ih(1) by simp
  qed
qed

lemma binade_bounds:
  assumes "0 < x"
  shows "pow2 (binade x) \<le> x \<and> x < pow2 (binade x + 1)"
proof (cases "1 \<le> x")
  case True
  with log2_up_bounds [OF True] show ?thesis by (simp add: binade_def)
next
  case False
  define k where "k = log2_up (1 / x)"
  from False assms have "1 \<le> 1 / x" by simp
  from log2_up_bounds [OF this] have k: "pow2 k \<le> 1 / x" "1 / x < pow2 (k + 1)"
    by (simp_all add: k_def)
  have up: "x \<le> pow2 (- k)"
    using k(1) assms pow2_pos [of k] by (simp add: pow2_minus field_simps)
  have lo: "pow2 (- k - 1) < x"
  proof -
    have "pow2 (- k - 1) = 1 / pow2 (k + 1)" using pow2_minus [of "k + 1"] by simp
    also have "\<dots> < x"
      using k(2) assms pow2_pos [of "k + 1"] by (simp add: field_simps)
    finally show ?thesis .
  qed
  show ?thesis
  proof (cases "pow2 (- k) \<le> x")
    case True
    then have "binade x = - k" using False by (simp add: binade_def k_def)
    moreover from True up have "x = pow2 (- k)" by simp
    ultimately show ?thesis using pow2_strict_mono [of "- k" "- k + 1"] by simp
  next
    case c: False
    then have "binade x = - k - 1" using False by (simp add: binade_def k_def Let_def)
    with lo c show ?thesis by simp
  qed
qed

lemma binade_unique:
  assumes "0 < x" "pow2 e \<le> x" "x < pow2 (e + 1)"
  shows "binade x = e"
proof -
  from binade_bounds [OF assms(1)] have b: "pow2 (binade x) \<le> x" "x < pow2 (binade x + 1)"
    by simp_all
  from b(1) assms(3) have "pow2 (binade x) < pow2 (e + 1)" by simp
  then have "binade x < e + 1" by (rule pow2_less_exp)
  moreover from assms(2) b(2) have "pow2 e < pow2 (binade x + 1)" by simp
  then have "e < binade x + 1" by (rule pow2_less_exp)
  ultimately show ?thesis by simp
qed

lemma round_half_even_int: "round_half_even (of_int m) = m"
  by (simp add: round_half_even_def)

lemma round_half_even_ge: "of_int m \<le> z \<Longrightarrow> m \<le> round_half_even z"
proof -
  assume "of_int m \<le> z"
  then have "m \<le> \<lfloor>z\<rfloor>" by (simp add: le_floor_iff)
  then show ?thesis by (simp add: round_half_even_def Let_def)
qed

lemma round_half_even_le: "z \<le> of_int m \<Longrightarrow> round_half_even z \<le> m"
proof (cases "z = of_int m")
  case True
  then show ?thesis by (simp add: round_half_even_int)
next
  case False
  assume "z \<le> of_int m"
  with False have "z < of_int m" by simp
  then have "\<lfloor>z\<rfloor> < m" by (simp add: floor_less_iff)
  then show ?thesis by (simp add: round_half_even_def Let_def)
qed


lemma pow2_nat: "pow2 (int n) = 2 ^ n"
  by (simp add: pow2_def)

lemma pow2_numeral: "pow2 (numeral n) = 2 ^ numeral n"
  by (simp add: pow2_def)

lemma quantum_small:
  assumes "e \<le> 52"
  shows "pow2 (e - 52) = 1 / 2 ^ nat (52 - e)"
proof -
  from assms have "e - 52 = - int (nat (52 - e))" by simp
  then show ?thesis by (simp only: pow2_minus pow2_nat)
qed

lemma quantum_int_div:
  "e \<le> 52 \<Longrightarrow> of_int N / pow2 (e - 52) = of_int (N * 2 ^ nat (52 - e))"
  by (simp add: quantum_small)

lemma quantum_int_mult:
  "e \<le> 52 \<Longrightarrow> of_int (N * 2 ^ nat (52 - e)) * pow2 (e - 52) = of_int N"
  by (simp add: quantum_small)

lemma to_double_unfold:
  assumes "x \<noteq> 0"
  shows "to_double x =
    (if pow2 1024 \<le> \<bar>of_int (round_half_even (x / pow2 (max (binade \<bar>x\<bar>) (- 1022) - 52))) *
                        pow2 (max (binade \<bar>x\<bar>) (- 1022) - 52)\<bar>
     then (if 0 < x then PosInfinity else NegInfinity)
     else Finite (of_int (round_half_even (x / pow2 (max (binade \<bar>x\<bar>) (- 1022) - 52))) *
                  pow2 (max (binade \<bar>x\<bar>) (- 1022) - 52)))"
  using assms by (simp add: to_double_def Let_def)

lemma pow2_53_1024: "(2::rat) ^ 53 < pow2 1024"
proof -
  have "pow2 53 < pow2 1024" by (rule pow2_strict_mono) simp
  then show ?thesis by (simp only: pow2_numeral)
qed

lemma to_double_ge_int:
  assumes "of_int N \<le> x" and "\<bar>N\<bar> < 2 ^ 53"
  shows "to_double x = PosInfinity \<or> (\<exists>y. to_double x = Finite y \<and> of_int N \<le> y)"
proof (cases "x = 0")
  case True
  with assms(1) show ?thesis by (simp add: to_double_def)
next
  case False
  define e where "e = max (binade \<bar>x\<bar>) (- 1022)"
  define q where "q = pow2 (e - 52)"
  define n where "n = round_half_even (x / q)"
  define y where "y = of_int n * q"
  have q: "0 < q" by (simp add: q_def pow2_pos)
  have N: "of_int \<bar>N\<bar> < (2::rat) ^ 53"
  proof -
    from assms(2) have "(of_int \<bar>N\<bar> :: rat) < of_int (2 ^ 53)" by (simp only: of_int_less_iff)
    then show ?thesis by simp
  qed
  have ab: "pow2 (binade \<bar>x\<bar>) \<le> \<bar>x\<bar>" using binade_bounds [of "\<bar>x\<bar>"] False by simp
  have ge: "of_int N \<le> y"
  proof (cases "e \<le> 52")
    case True
    from assms(1) q have "of_int N / q \<le> x / q" by (simp add: divide_right_mono)
    then have "of_int (N * 2 ^ nat (52 - e)) \<le> x / q"
      unfolding q_def quantum_int_div [OF True] .
    then have "N * 2 ^ nat (52 - e) \<le> n" unfolding n_def by (rule round_half_even_ge)
    then have "(of_int (N * 2 ^ nat (52 - e)) :: rat) \<le> of_int n" by (simp only: of_int_le_iff)
    with q have "of_int (N * 2 ^ nat (52 - e)) * q \<le> of_int n * q"
      by (simp add: mult_right_mono)
    then show ?thesis unfolding y_def q_def quantum_int_mult [OF True] .
  next
    case big: False
    then have eb: "e = binade \<bar>x\<bar>" by (simp add: e_def)
    from big have "pow2 53 \<le> pow2 e" by (intro pow2_mono) simp
    with ab eb have x53: "2 ^ 53 \<le> \<bar>x\<bar>" by (simp add: pow2_numeral)
    have pos: "0 < x"
    proof (rule ccontr)
      assume "\<not> 0 < x"
      with x53 have "x \<le> - (2 ^ 53)" by simp
      with assms(1) have "(of_int N :: rat) \<le> - (2 ^ 53)" by simp
      then have "2 ^ 53 \<le> (of_int \<bar>N\<bar> :: rat)" by simp
      with N show False by simp
    qed
    with ab eb have "pow2 e \<le> x" by simp
    with q have "pow2 e / q \<le> x / q" by (simp add: divide_right_mono)
    moreover have "pow2 e / q = of_int (2 ^ 52)"
    proof -
      have "pow2 e = pow2 (e - 52) * pow2 52" by (simp flip: pow2_add)
      then show ?thesis using q by (simp add: q_def pow2_numeral)
    qed
    ultimately have "2 ^ 52 \<le> n" unfolding n_def by (simp only: round_half_even_ge)
    then have "(of_int (2 ^ 52) :: rat) \<le> of_int n" by (simp only: of_int_le_iff)
    with q have "of_int (2 ^ 52) * q \<le> y" unfolding y_def by (simp add: mult_right_mono)
    moreover have "of_int (2 ^ 52) * q = pow2 e"
    proof -
      have "pow2 e = pow2 52 * pow2 (e - 52)" by (simp flip: pow2_add)
      then show ?thesis by (simp add: q_def pow2_numeral)
    qed
    ultimately have "pow2 e \<le> y" by simp
    with \<open>pow2 53 \<le> pow2 e\<close> have "2 ^ 53 \<le> y" by (simp add: pow2_numeral)
    moreover have "(of_int N :: rat) \<le> of_int \<bar>N\<bar>" by simp
    ultimately show ?thesis using N by simp
  qed
  have small: "\<bar>y\<bar> < pow2 1024" if "x < 0"
  proof -
    from that q have "x / q \<le> of_int 0" by (simp add: divide_le_0_iff)
    then have "n \<le> 0" unfolding n_def by (rule round_half_even_le)
    then have "(of_int n :: rat) \<le> 0" by simp
    with q have "y \<le> 0" unfolding y_def by (simp add: mult_le_0_iff)
    with ge have "\<bar>y\<bar> \<le> of_int \<bar>N\<bar>" by simp
    with N pow2_53_1024 show ?thesis by simp
  qed
  have "to_double x = (if pow2 1024 \<le> \<bar>y\<bar>
     then (if 0 < x then PosInfinity else NegInfinity) else Finite y)"
    unfolding y_def n_def q_def e_def by (rule to_double_unfold [OF False])
  with ge small False show ?thesis by (cases "0 < x") auto
qed

lemma to_double_int:
  assumes "\<bar>k\<bar> < 2 ^ 53"
  shows "to_double (of_int k) = Finite (of_int k)"
proof (cases "k = 0")
  case True
  then show ?thesis by (simp add: to_double_def)
next
  case False
  define x :: rat where "x = of_int k"
  define e where "e = max (binade \<bar>x\<bar>) (- 1022)"
  have x0: "x \<noteq> 0" using False by (simp add: x_def)
  have K: "\<bar>x\<bar> < 2 ^ 53"
  proof -
    from assms have "(of_int \<bar>k\<bar> :: rat) < of_int (2 ^ 53)" by (simp only: of_int_less_iff)
    then show ?thesis by (simp add: x_def)
  qed
  have "pow2 (binade \<bar>x\<bar>) \<le> \<bar>x\<bar>" using binade_bounds [of "\<bar>x\<bar>"] x0 by simp
  with K have "pow2 (binade \<bar>x\<bar>) < pow2 53" by (simp add: pow2_numeral)
  then have "binade \<bar>x\<bar> < 53" by (rule pow2_less_exp)
  then have e: "e \<le> 52" by (simp add: e_def)
  have d: "x / pow2 (e - 52) = of_int (k * 2 ^ nat (52 - e))"
    unfolding x_def by (rule quantum_int_div [OF e])
  have y: "of_int (round_half_even (x / pow2 (e - 52))) * pow2 (e - 52) = x"
    unfolding d round_half_even_int quantum_int_mult [OF e] by (simp add: x_def)
  have "to_double x = (if pow2 1024 \<le> \<bar>x\<bar>
     then (if 0 < x then PosInfinity else NegInfinity) else Finite x)"
    using to_double_unfold [OF x0] unfolding e_def [symmetric] y .
  with K pow2_53_1024 show ?thesis by (simp add: x_def)
qed


lemma round_half_even_near:
  assumes "\<bar>z - of_int m\<bar> < 1 / 2"
  shows "round_half_even z = m"
proof (cases "of_int m \<le> z")
  case True
  with assms have "\<lfloor>z\<rfloor> = m" by (intro floor_unique) simp_all
  with assms True show ?thesis by (simp add: round_half_even_def Let_def)
next
  case False
  with assms have "\<lfloor>z\<rfloor> = m - 1" by (intro floor_unique) simp_all
  with assms False show ?thesis by (simp add: round_half_even_def Let_def)
qed

lemma to_double_example_1: "to_double (1000 - (70 + 1 / 2 ^ 46)) = Finite 930"
proof -
  define x :: rat where "x = 1000 - (70 + 1 / 2 ^ 46)"
  have x0: "x \<noteq> 0" and ax: "\<bar>x\<bar> = x" by (simp_all add: x_def)
  have b: "binade x = 9"
    by (rule binade_unique) (simp_all add: x_def pow2_numeral)
  have q: "pow2 (max (binade \<bar>x\<bar>) (- 1022) - 52) = 1 / 2 ^ 43"
    unfolding ax b using quantum_small [of 9] by simp
  have r: "round_half_even (x / (1 / 2 ^ 43)) = 930 * 2 ^ 43"
    by (rule round_half_even_near) (simp add: x_def)
  have "to_double x = Finite 930"
    unfolding to_double_unfold [OF x0] q r using pow2_53_1024 by simp
  then show ?thesis by (simp only: x_def)
qed

lemma to_double_example_2: "to_double (70 + 1 / 2 ^ 46) = Finite (70 + 1 / 2 ^ 46)"
proof -
  define x :: rat where "x = 70 + 1 / 2 ^ 46"
  have x0: "x \<noteq> 0" and ax: "\<bar>x\<bar> = x" by (simp_all add: x_def)
  have b: "binade x = 6"
    by (rule binade_unique) (simp_all add: x_def pow2_numeral)
  have q: "pow2 (max (binade \<bar>x\<bar>) (- 1022) - 52) = 1 / 2 ^ 46"
    unfolding ax b using quantum_small [of 6] by simp
  have "x / (1 / 2 ^ 46) = of_int (70 * 2 ^ 46 + 1)" by (simp add: x_def)
  then have r: "round_half_even (x / (1 / 2 ^ 46)) = 70 * 2 ^ 46 + 1"
    by (simp only: round_half_even_int)
  have "to_double x = Finite x"
    unfolding to_double_unfold [OF x0] q r using pow2_53_1024 by (simp add: x_def)
  then show ?thesis by (simp only: x_def)
qed

section \<open>The state of the ServiceLog component\<close>

text \<open>
  The component keeps the entries shown (\<^verbatim>\<open>entries\<close>), the error message
  (\<^verbatim>\<open>error\<close>, \<open>None\<close> for \<^verbatim>\<open>null\<close>), the counter \<^verbatim>\<open>nextId\<close> and the flag
  \<^verbatim>\<open>shouldAutoScroll\<close>. The fields \<^verbatim>\<open>id\<close> and \<^verbatim>\<open>text\<close> of an entry are written
  \<open>entry_id\<close> and \<open>entry_text\<close>. Identifiers are natural numbers: the counter of the
  source is a double, exact far beyond any number of lines a session delivers.
\<close>

definition MAX_LOG_LINES :: nat where
  "MAX_LOG_LINES = 200"

record LogEntry =
  entry_id :: nat
  entry_text :: string

record ServiceLog_state =
  entries :: "LogEntry list"
  error :: "string option"
  nextId :: nat
  shouldAutoScroll :: bool

text \<open>The values the hooks start with.\<close>

definition initial_state :: ServiceLog_state where
  "initial_state = \<lparr>entries = [], error = None, nextId = 0, shouldAutoScroll = True\<rparr>"

text \<open>
  The callback for a delivered line, with the update it hands to \<^verbatim>\<open>setEntries\<close>: the
  entry takes the counter's value, the counter moves on, the entry goes to the end, and
  past \<^verbatim>\<open>MAX_LOG_LINES\<close> entries only the last \<^verbatim>\<open>MAX_LOG_LINES\<close> are kept. Every
  update is run once, in the order of delivery.
\<close>

definition on_line :: "string \<Rightarrow> ServiceLog_state \<Rightarrow> ServiceLog_state" where
  "on_line line s =
     (let entry = \<lparr>entry_id = nextId s, entry_text = line\<rparr>;
          next = entries s @ [entry]
      in s\<lparr>entries :=
             (if MAX_LOG_LINES < length next
              then drop (length next - MAX_LOG_LINES) next
              else next),
           nextId := nextId s + 1\<rparr>)"

text \<open>The callback \<^verbatim>\<open>onError\<close>.\<close>

definition on_error :: "string \<Rightarrow> ServiceLog_state \<Rightarrow> ServiceLog_state" where
  "on_error message s = s\<lparr>error := Some message\<rparr>"

text \<open>
  The start of the effect that opens a subscription (the panel is expanded, or the
  package has changed): the entries and the error are cleared, the counter is not touched.
\<close>

definition on_expand :: "ServiceLog_state \<Rightarrow> ServiceLog_state" where
  "on_expand s = s\<lparr>entries := [], error := None\<rparr>"

text \<open>Lines delivered one after the other.\<close>

definition deliver :: "string list \<Rightarrow> ServiceLog_state \<Rightarrow> ServiceLog_state" where
  "deliver ls s = foldl (\<lambda>s line. on_line line s) s ls"

text \<open>
  The three numbers \<^verbatim>\<open>handleScroll\<close> reads from the scrolled container, and the
  handler itself: the two subtractions and the comparison with 30 are those of doubles,
  from left to right; without a container the flag stays as it is.
\<close>

record element =
  scrollHeight :: number
  scrollTop :: number
  clientHeight :: number

definition handleScroll :: "element option \<Rightarrow> ServiceLog_state \<Rightarrow> ServiceLog_state" where
  "handleScroll el s =
     (case el of
        None \<Rightarrow> s
      | Some e \<Rightarrow>
          s\<lparr>shouldAutoScroll :=
              js_less (js_sub (js_sub (scrollHeight e) (scrollTop e)) (clientHeight e))
                (Finite 30)\<rparr>)"

text \<open>
  What can happen to the component: a line or an error from the stream, the panel being
  expanded (or the package changed) or collapsed, a scroll event. Collapsing closes the
  stream and leaves the entries, the error and the counter as they are. With it, the
  identifiers that a sequence of events hands out.
\<close>

datatype event =
  Line string | TransportError string | Expand | Collapse | Scroll "element option"

fun step :: "event \<Rightarrow> ServiceLog_state \<Rightarrow> ServiceLog_state" where
  "step (Line line) s = on_line line s"
| "step (TransportError message) s = on_error message s"
| "step Expand s = on_expand s"
| "step Collapse s = s"
| "step (Scroll el) s = handleScroll el s"

definition run :: "event list \<Rightarrow> ServiceLog_state \<Rightarrow> ServiceLog_state" where
  "run evs s = foldl (\<lambda>s e. step e s) s evs"

fun assigned_ids :: "event list \<Rightarrow> ServiceLog_state \<Rightarrow> nat list" where
  "assigned_ids [] s = []"
| "assigned_ids (e # evs) s =
     (case e of Line line \<Rightarrow> [nextId s] | _ \<Rightarrow> []) @ assigned_ids evs (step e s)"

text \<open>Lines of one, two, three ... letters x, to run the component on.\<close>

definition sample_lines :: "nat \<Rightarrow> string list" where
  "sample_lines n = map (\<lambda>i. replicate (Suc i) CHR ''x'') [0..<n]"

text \<open>The entries made from the lines \<open>ls\<close> when the counter starts at \<open>n\<close>.\<close>

definition arrivals :: "nat \<Rightarrow> string list \<Rightarrow> LogEntry list" where
  "arrivals n ls = map (\<lambda>i. \<lparr>entry_id = n + i, entry_text = ls ! i\<rparr>) [0..<length ls]"

section \<open>The bounded buffer\<close>

lemma on_line_entries:
  "entries (on_line line s) =
     drop (Suc (length (entries s)) - MAX_LOG_LINES)
       (entries s @ [\<lparr>entry_id = nextId s, entry_text = line\<rparr>])"
  by (simp add: on_line_def Let_def)

lemma on_line_nextId: "nextId (on_line line s) = Suc (nextId s)"
  by (simp add: on_line_def Let_def)

lemma deliver_snoc: "deliver (ls @ [line]) s = on_line line (deliver ls s)"
  by (simp add: deliver_def)

lemma arrivals_snoc:
  "arrivals n (ls @ [line]) = arrivals n ls @ [\<lparr>entry_id = n + length ls, entry_text = line\<rparr>]"
  by (simp add: arrivals_def nth_append)

lemma length_arrivals: "length (arrivals n ls) = length ls"
  by (simp add: arrivals_def)

lemma keep_last_snoc:
  assumes "0 < m"
  shows "drop (Suc (length (drop (length xs - m) xs)) - m) (drop (length xs - m) xs @ [e]) =
         drop (Suc (length xs) - m) (xs @ [e])"
proof (cases "length xs < m")
  case True
  then show ?thesis by simp
next
  case False
  then have "Suc (length xs) - m = Suc (length xs - m)" by simp
  moreover from False assms have "length (drop (length xs - m) xs) = m" by simp
  ultimately show ?thesis using False assms by (simp add: drop_Suc tl_drop)
qed

lemma deliver_state:
  assumes "length (entries s) \<le> MAX_LOG_LINES"
  shows "entries (deliver ls s) =
     drop (length (entries s) + length ls - MAX_LOG_LINES) (entries s @ arrivals (nextId s) ls) \<and>
   nextId (deliver ls s) = nextId s + length ls"
proof (induction ls rule: rev_induct)
  case Nil
  from assms show ?case by (simp add: deliver_def arrivals_def)
next
  case (snoc line ls)
  let ?xs = "entries s @ arrivals (nextId s) ls"
  have len: "length ?xs = length (entries s) + length ls" by (simp add: length_arrivals)
  have pos: "0 < MAX_LOG_LINES" by (simp add: MAX_LOG_LINES_def)
  from snoc have e: "entries (deliver ls s) = drop (length ?xs - MAX_LOG_LINES) ?xs"
    unfolding len by (rule conjunct1)
  from snoc have n: "nextId (deliver ls s) = nextId s + length ls"
    by (rule conjunct2)
  have "entries (deliver (ls @ [line]) s) =
        drop (Suc (length ?xs) - MAX_LOG_LINES)
          (?xs @ [\<lparr>entry_id = nextId s + length ls, entry_text = line\<rparr>])"
    unfolding deliver_snoc on_line_entries e n by (rule keep_last_snoc [OF pos])
  then show ?case
    by (simp add: arrivals_snoc length_arrivals deliver_snoc on_line_nextId n)
qed


lemma drop_arrivals:
  "drop k (arrivals n ls) =
   map (\<lambda>i. \<lparr>entry_id = n + i, entry_text = ls ! i\<rparr>) [k..<length ls]"
  by (simp add: arrivals_def drop_map)

lemma deliver_from_empty:
  "entries (deliver ls (on_expand s)) =
     map (\<lambda>i. \<lparr>entry_id = nextId s + i, entry_text = ls ! i\<rparr>)
       [length ls - MAX_LOG_LINES..<length ls]"
proof -
  have "length (entries (on_expand s)) \<le> MAX_LOG_LINES" by (simp add: on_expand_def)
  from deliver_state [OF this, of ls] show ?thesis
    by (simp add: on_expand_def drop_arrivals)
qed

lemma on_line_bounded: "length (entries (on_line line s)) \<le> MAX_LOG_LINES"
  by (simp add: on_line_def Let_def MAX_LOG_LINES_def)

text \<open>
  Claim C2. The buffer never holds more than \<^verbatim>\<open>MAX_LOG_LINES\<close> = 200 entries: it is
  empty at the start and after a clear, and within the bound after every delivered line.
  After more than 200 lines delivered one at a time to an empty buffer it holds exactly
  200 entries, their texts are the last 200 lines in the order of arrival, and their
  identifiers are consecutive numbers, strictly increasing.
\<close>

theorem log_buffer_bounded:
  "length (entries initial_state) \<le> MAX_LOG_LINES \<and>
   length (entries (on_expand s)) \<le> MAX_LOG_LINES \<and>
   length (entries (on_line line s)) \<le> MAX_LOG_LINES \<and>
   MAX_LOG_LINES = 200 \<and>
   (MAX_LOG_LINES < length ls \<longrightarrow>
      length (entries (deliver ls (on_expand s))) = MAX_LOG_LINES \<and>
      map entry_text (entries (deliver ls (on_expand s))) = drop (length ls - MAX_LOG_LINES) ls \<and>
      map entry_id (entries (deliver ls (on_expand s))) =
        [nextId s + (length ls - MAX_LOG_LINES)..<nextId s + length ls])"
proof -
  have a: "length (entries initial_state) \<le> MAX_LOG_LINES"
    by (simp add: initial_state_def)
  have b: "length (entries (on_expand s)) \<le> MAX_LOG_LINES"
    by (simp add: on_expand_def)
  have t: "map entry_text (entries (deliver ls (on_expand s))) = drop (length ls - MAX_LOG_LINES) ls"
    unfolding deliver_from_empty
    by (rule nth_equalityI) simp_all
  have i: "map entry_id (entries (deliver ls (on_expand s))) =
        [nextId s + (length ls - MAX_LOG_LINES)..<nextId s + length ls]"
    unfolding deliver_from_empty
    by (rule nth_equalityI) simp_all
  have l: "length (entries (deliver ls (on_expand s))) = MAX_LOG_LINES"
    if "MAX_LOG_LINES < length ls"
    unfolding deliver_from_empty using that by simp
  from a b on_line_bounded t i l show ?thesis
    by (simp add: MAX_LOG_LINES_def)
qed


theorem log_buffer_bounded_witness:
  "MAX_LOG_LINES < length (sample_lines 201) \<and>
   length (entries (deliver (sample_lines 201) (on_expand initial_state))) = 200 \<and>
   map entry_text (entries (deliver (sample_lines 201) (on_expand initial_state))) =
     drop 1 (sample_lines 201) \<and>
   map entry_id (entries (deliver (sample_lines 201) (on_expand initial_state))) = [1..<201]"
proof -
  have n: "length (sample_lines 201) = 201" by (simp add: sample_lines_def)
  have h: "MAX_LOG_LINES < length (sample_lines 201)"
    unfolding n by (simp add: MAX_LOG_LINES_def)
  have z: "nextId initial_state = 0" by (simp add: initial_state_def)
  from log_buffer_bounded [of initial_state "[]" "sample_lines 201"] h
  show ?thesis unfolding n z by (simp add: MAX_LOG_LINES_def del: upt_rec_numeral)
qed

lemma hd_deliver_from_empty:
  assumes "MAX_LOG_LINES < length ls"
  shows "hd (entries (deliver ls (on_expand s))) =
         \<lparr>entry_id = nextId s + (length ls - MAX_LOG_LINES),
          entry_text = ls ! (length ls - MAX_LOG_LINES)\<rparr>"
proof -
  from assms have "length ls - MAX_LOG_LINES < length ls"
    by (simp add: MAX_LOG_LINES_def)
  then show ?thesis
    unfolding deliver_from_empty by (simp add: upt_conv_Cons)
qed

lemma length_deliver_from_empty:
  "length (entries (deliver ls (on_expand s))) = min (length ls) MAX_LOG_LINES"
  unfolding deliver_from_empty by simp

text \<open>
  Claim C3, as amended. After 250 lines without escape codes delivered to the buffer
  emptied at the opening of a subscription, 200 entries are shown, and the first of them
  is line 50 of the input counted from 0, as an entry and as the text of its runs.
\<close>

theorem deliver_250_lines:
  assumes "length ls = 250" and "list_all (\<lambda>line. ESC \<notin> set line) ls"
  shows "length (entries (deliver ls (on_expand s))) = 200 \<and>
         entry_text (hd (entries (deliver ls (on_expand s)))) = ls ! 50 \<and>
         concat (map span_text (parseAnsi (entry_text (hd (entries (deliver ls (on_expand s))))))) =
           ls ! 50"
proof -
  from assms(1) have m: "MAX_LOG_LINES < length ls" by (simp add: MAX_LOG_LINES_def)
  have l: "length (entries (deliver ls (on_expand s))) = 200"
    using assms(1) by (simp add: length_deliver_from_empty MAX_LOG_LINES_def)
  have t: "entry_text (hd (entries (deliver ls (on_expand s)))) = ls ! 50"
    using assms(1) by (simp add: hd_deliver_from_empty [OF m] MAX_LOG_LINES_def)
  from assms have "ESC \<notin> set (ls ! 50)" by (simp add: list_all_length)
  then have "concat (map span_text (parseAnsi (ls ! 50))) = ls ! 50"
    by (simp add: parseAnsi_no_ESC)
  with l t show ?thesis by simp
qed

lemma length_sample_lines: "length (sample_lines n) = n"
  by (simp add: sample_lines_def)

lemma nth_sample_lines: "i < n \<Longrightarrow> sample_lines n ! i = replicate (Suc i) CHR ''x''"
  by (simp add: sample_lines_def)

lemma sample_lines_no_ESC: "list_all (\<lambda>line. ESC \<notin> set line) (sample_lines n)"
  by (auto simp: sample_lines_def list_all_iff ESC_def)

theorem deliver_250_lines_witness:
  "length (sample_lines 250) = 250 \<and>
   list_all (\<lambda>line. ESC \<notin> set line) (sample_lines 250) \<and>
   length (entries (deliver (sample_lines 250) (on_expand initial_state))) = 200 \<and>
   entry_text (hd (entries (deliver (sample_lines 250) (on_expand initial_state)))) =
     replicate 51 CHR ''x''"
  using deliver_250_lines [OF length_sample_lines sample_lines_no_ESC, of initial_state]
  by (simp add: length_sample_lines sample_lines_no_ESC nth_sample_lines)

text \<open>
  Claim C3 as it is written fails: of 250 lines the first 50 are dropped, so the first
  entry shown is line 50 counted from 0 (the fifty-first line), not line 51.
\<close>

theorem deliver_250_lines_counterexample:
  "length (entries (deliver (sample_lines 250) (on_expand initial_state))) = 200 \<and>
   entry_text (hd (entries (deliver (sample_lines 250) (on_expand initial_state)))) =
     sample_lines 250 ! 50 \<and>
   entry_text (hd (entries (deliver (sample_lines 250) (on_expand initial_state)))) \<noteq>
     sample_lines 250 ! 51"
proof -
  have m: "MAX_LOG_LINES < length (sample_lines 250)"
    by (simp add: length_sample_lines MAX_LOG_LINES_def)
  have "replicate (Suc 50) CHR ''x'' \<noteq> replicate (Suc 51) CHR ''x''"
    by simp
  then show ?thesis
    by (simp add: length_deliver_from_empty hd_deliver_from_empty [OF m]
        length_sample_lines nth_sample_lines MAX_LOG_LINES_def)
qed


section \<open>Identifiers across a clear\<close>

lemma nextId_step: "nextId s \<le> nextId (step e s)"
  by (cases e) (simp_all add: on_line_def Let_def on_error_def on_expand_def handleScroll_def
      split: option.splits)

lemma run_Cons: "run (e # evs) s = run evs (step e s)"
  by (simp add: run_def)

lemma nextId_run: "nextId s \<le> nextId (run evs s)"
proof (induction evs arbitrary: s)
  case Nil
  show ?case by (simp add: run_def)
next
  case (Cons e evs)
  have "nextId s \<le> nextId (step e s)" by (rule nextId_step)
  also have "\<dots> \<le> nextId (run evs (step e s))" by (rule Cons.IH)
  finally show ?case by (simp add: run_Cons)
qed

lemma assigned_ids_range:
  "a \<in> set (assigned_ids evs s) \<Longrightarrow> nextId s \<le> a \<and> a < nextId (run evs s)"
proof (induction evs arbitrary: s)
  case Nil
  then show ?case by simp
next
  case (Cons e evs)
  have up: "nextId s \<le> nextId (step e s)" by (rule nextId_step)
  show ?case
  proof (cases "a \<in> set (assigned_ids evs (step e s))")
    case True
    from Cons.IH [OF True] up show ?thesis by (simp add: run_Cons)
  next
    case False
    with Cons.prems obtain line where e: "e = Line line" and a: "a = nextId s"
      by (cases e) simp_all
    have "nextId s < nextId (step e s)" by (simp add: e on_line_nextId)
    also have "\<dots> \<le> nextId (run evs (step e s))" by (rule nextId_run)
    finally show ?thesis using a by (simp add: run_Cons)
  qed
qed

lemma entries_step:
  "x \<in> set (entries (step e s)) \<Longrightarrow>
   x \<in> set (entries s) \<or> (entry_id x = nextId s \<and> nextId s < nextId (step e s))"
  by (cases e)
    (auto simp: on_line_def Let_def on_error_def on_expand_def handleScroll_def
      split: option.splits if_splits dest: in_set_dropD)

lemma entries_run:
  "x \<in> set (entries (run evs s)) \<Longrightarrow>
   x \<in> set (entries s) \<or> (nextId s \<le> entry_id x \<and> entry_id x < nextId (run evs s))"
proof (induction evs arbitrary: s)
  case Nil
  then show ?case by (simp add: run_def)
next
  case (Cons e evs)
  from Cons.prems have "x \<in> set (entries (run evs (step e s)))" by (simp add: run_Cons)
  from Cons.IH [OF this] show ?case
  proof
    assume "x \<in> set (entries (step e s))"
    from entries_step [OF this] show ?thesis
    proof
      assume "x \<in> set (entries s)"
      then show ?thesis ..
    next
      assume h: "entry_id x = nextId s \<and> nextId s < nextId (step e s)"
      have "nextId (step e s) \<le> nextId (run evs (step e s))" by (rule nextId_run)
      with h show ?thesis by (simp add: run_Cons)
    qed
  next
    assume h: "nextId (step e s) \<le> entry_id x \<and> entry_id x < nextId (run evs (step e s))"
    have "nextId s \<le> nextId (step e s)" by (rule nextId_step)
    with h show ?thesis by (simp add: run_Cons)
  qed
qed

text \<open>
  Claim C9. The clear empties the buffer and leaves the counter as it is; whatever
  happened before the clear and whatever happens after it, every identifier handed out
  after the clear, and so every entry in the buffer from then on, is strictly greater than
  every identifier handed out before.
\<close>

theorem clear_keeps_id_counter:
  "entries (on_expand s) = [] \<and>
   nextId (on_expand s) = nextId s \<and>
   (\<forall>a\<in>set (assigned_ids before s).
      \<forall>b\<in>set (assigned_ids after (on_expand (run before s))). a < b) \<and>
   (\<forall>a\<in>set (assigned_ids before s).
      \<forall>x\<in>set (entries (run after (on_expand (run before s)))). a < entry_id x)"
proof -
  let ?c = "on_expand (run before s)"
  have c: "nextId ?c = nextId (run before s)" "entries ?c = []"
    by (simp_all add: on_expand_def)
  have 1: "a < b"
    if "a \<in> set (assigned_ids before s)" "b \<in> set (assigned_ids after ?c)" for a b
    using assigned_ids_range [OF that(1)] assigned_ids_range [OF that(2)] c by simp
  have 2: "a < entry_id x"
    if "a \<in> set (assigned_ids before s)" "x \<in> set (entries (run after ?c))" for a x
    using assigned_ids_range [OF that(1)] entries_run [OF that(2)] c by simp
  from 1 2 show ?thesis by (simp add: on_expand_def)
qed

theorem clear_keeps_id_counter_witness:
  "assigned_ids [Line ''a'', Line ''b''] initial_state = [0, 1] \<and>
   assigned_ids [Line ''c''] (on_expand (run [Line ''a'', Line ''b''] initial_state)) = [2] \<and>
   map entry_id (entries (run [Line ''c''] (on_expand (run [Line ''a'', Line ''b''] initial_state)))) = [2] \<and>
   (0::nat) < 2 \<and> (1::nat) < 2"
proof -
  have a: "assigned_ids [Line ''a'', Line ''b''] initial_state = [0, 1]"
    by (simp add: initial_state_def on_line_def Let_def)
  have b: "assigned_ids [Line ''c''] (on_expand (run [Line ''a'', Line ''b''] initial_state)) = [2]"
    by (simp add: initial_state_def on_line_def Let_def on_expand_def run_def)
  have c: "map entry_id (entries (run [Line ''c''] (on_expand (run [Line ''a'', Line ''b''] initial_state)))) = [2]"
    by (simp add: initial_state_def on_line_def Let_def on_expand_def run_def MAX_LOG_LINES_def)
  from clear_keeps_id_counter [of initial_state "[Line ''a'', Line ''b'']" "[Line ''c'']"] a b c
  show ?thesis by simp
qed

section \<open>The auto-follow flag\<close>

lemma not_below_30:
  assumes "\<bar>30 + c\<bar> < 2 ^ 53" and "30 \<le> h - t - of_int c"
  shows "\<not> js_less (js_sub (js_sub (Finite h) (Finite t)) (Finite (of_int c))) (Finite 30)"
proof -
  from assms(2) have "of_int (30 + c) \<le> h - t" by simp
  from to_double_ge_int [OF this assms(1)]
  show ?thesis
  proof
    assume "to_double (h - t) = PosInfinity"
    then show ?thesis by simp
  next
    assume "\<exists>y. to_double (h - t) = Finite y \<and> of_int (30 + c) \<le> y"
    then obtain y where y: "to_double (h - t) = Finite y" and ge: "of_int (30 + c) \<le> y"
      by blast
    from ge have "of_int 30 \<le> y - of_int c" by simp
    moreover have "\<bar>30 :: int\<bar> < 2 ^ 53" by simp
    ultimately have "to_double (y - of_int c) = PosInfinity \<or>
        (\<exists>z. to_double (y - of_int c) = Finite z \<and> of_int 30 \<le> z)"
      by (rule to_double_ge_int)
    then show ?thesis using y by auto
  qed
qed

lemma exact_on_integers:
  assumes "\<bar>a\<bar> \<le> 2 ^ 31" "\<bar>b\<bar> \<le> 2 ^ 31" "\<bar>c\<bar> \<le> 2 ^ 31"
  shows "js_sub (js_sub (Finite (of_int a)) (Finite (of_int b))) (Finite (of_int c)) =
         Finite (of_int (a - b - c))"
proof -
  from assms have 1: "\<bar>a - b\<bar> < 2 ^ 53" and 2: "\<bar>a - b - c\<bar> < 2 ^ 53" by simp_all
  have "js_sub (Finite (of_int a)) (Finite (of_int b)) = to_double (of_int (a - b))"
    by simp
  also have "\<dots> = Finite (of_int (a - b))" by (rule to_double_int [OF 1])
  finally have "js_sub (js_sub (Finite (of_int a)) (Finite (of_int b))) (Finite (of_int c)) =
      to_double (of_int (a - b - c))" by simp
  also have "\<dots> = Finite (of_int (a - b - c))" by (rule to_double_int [OF 2])
  finally show ?thesis .
qed

text \<open>
  Claim C8, as amended. The flag starts as true, and after a scroll event observed on the
  container it is true exactly when \<^verbatim>\<open>scrollHeight - scrollTop - clientHeight\<close>, computed
  in doubles with each subtraction rounded, is strictly below 30. With a whole number for
  \<^verbatim>\<open>clientHeight\<close> the flag is false whenever the exact distance is 30 or more, so a true
  flag means an exact distance below 30; and when the three numbers are whole numbers of
  at most 32 bits the flag is the exact comparison.
\<close>

theorem auto_follow_flag:
  "shouldAutoScroll initial_state = True \<and>
   shouldAutoScroll (handleScroll (Some el) s) =
     js_less (js_sub (js_sub (scrollHeight el) (scrollTop el)) (clientHeight el)) (Finite 30) \<and>
   (\<bar>30 + c\<bar> < 2 ^ 53 \<and> 30 \<le> h - t - of_int c \<longrightarrow>
      \<not> shouldAutoScroll (handleScroll
          (Some \<lparr>scrollHeight = Finite h, scrollTop = Finite t,
                 clientHeight = Finite (of_int c)\<rparr>) s)) \<and>
   (\<bar>a\<bar> \<le> 2 ^ 31 \<and> \<bar>b\<bar> \<le> 2 ^ 31 \<and> \<bar>c\<bar> \<le> 2 ^ 31 \<longrightarrow>
      shouldAutoScroll (handleScroll
          (Some \<lparr>scrollHeight = Finite (of_int a), scrollTop = Finite (of_int b),
                 clientHeight = Finite (of_int c)\<rparr>) s) = (a - b - c < 30))"
proof -
  have 1: "shouldAutoScroll initial_state = True" by (simp add: initial_state_def)
  have 2: "shouldAutoScroll (handleScroll (Some el) s) =
     js_less (js_sub (js_sub (scrollHeight el) (scrollTop el)) (clientHeight el)) (Finite 30)"
    for el by (simp add: handleScroll_def)
  have 3: "\<not> shouldAutoScroll (handleScroll
          (Some \<lparr>scrollHeight = Finite h, scrollTop = Finite t,
                 clientHeight = Finite (of_int c)\<rparr>) s)"
    if "\<bar>30 + c\<bar> < 2 ^ 53" "30 \<le> h - t - of_int c"
    unfolding 2 using not_below_30 [OF that] by simp
  have 4: "shouldAutoScroll (handleScroll
          (Some \<lparr>scrollHeight = Finite (of_int a), scrollTop = Finite (of_int b),
                 clientHeight = Finite (of_int c)\<rparr>) s) = (a - b - c < 30)"
    if "\<bar>a\<bar> \<le> 2 ^ 31" "\<bar>b\<bar> \<le> 2 ^ 31" "\<bar>c\<bar> \<le> 2 ^ 31"
  proof -
    have "(of_int (a - b - c) < (30::rat)) = (a - b - c < 30)"
      using of_int_less_iff [of "a - b - c" 30, where ?'a = rat] by simp
    then show ?thesis unfolding 2 using exact_on_integers [OF that] by simp
  qed
  from 1 2 3 4 show ?thesis by blast
qed

theorem auto_follow_flag_witness:
  "\<bar>30 + (900::int)\<bar> < 2 ^ 53 \<and> (30::rat) \<le> 1000 - 70 - 900 \<and>
   \<bar>1000 :: int\<bar> \<le> 2 ^ 31 \<and> \<bar>100 :: int\<bar> \<le> 2 ^ 31 \<and> \<bar>900 :: int\<bar> \<le> 2 ^ 31 \<and>
   \<not> shouldAutoScroll (handleScroll
       (Some \<lparr>scrollHeight = Finite 1000, scrollTop = Finite 70, clientHeight = Finite 900\<rparr>)
       initial_state) \<and>
   shouldAutoScroll (handleScroll
       (Some \<lparr>scrollHeight = Finite 1000, scrollTop = Finite 100, clientHeight = Finite 900\<rparr>)
       initial_state)"
proof -
  have h: "\<bar>30 + (900::int)\<bar> < 2 ^ 53 \<and> (30::rat) \<le> 1000 - 70 - of_int 900" by simp
  have g: "\<bar>1000 :: int\<bar> \<le> 2 ^ 31 \<and> \<bar>100 :: int\<bar> \<le> 2 ^ 31 \<and> \<bar>900 :: int\<bar> \<le> 2 ^ 31" by simp
  from auto_follow_flag [where c = 900 and h = 1000 and t = 70 and a = 1000 and b = 100
      and s = initial_state
      and el = "\<lparr>scrollHeight = NaN, scrollTop = NaN, clientHeight = NaN\<rparr>"] h g
  have "\<not> shouldAutoScroll (handleScroll
       (Some \<lparr>scrollHeight = Finite 1000, scrollTop = Finite 70,
              clientHeight = Finite (of_int 900)\<rparr>) initial_state) \<and>
     shouldAutoScroll (handleScroll
       (Some \<lparr>scrollHeight = Finite (of_int 1000), scrollTop = Finite (of_int 100),
              clientHeight = Finite (of_int 900)\<rparr>) initial_state) =
       (1000 - 100 - 900 < (30::int))"
    by blast
  then show ?thesis by simp
qed

text \<open>
  Claim C8 as it is written fails, for the distance taken exactly: with
  \<^verbatim>\<open>scrollHeight\<close> 1000, \<^verbatim>\<open>clientHeight\<close> 900 and \<^verbatim>\<open>scrollTop\<close> the double
  \<open>70 + 2\<^sup>-\<^sup>4\<^sup>6\<close>, the distance is below 30, the first subtraction rounds to 930, the
  second gives 30, and the flag is false.
\<close>

theorem auto_follow_flag_counterexample:
  "to_double (70 + 1 / 2 ^ 46) = Finite (70 + 1 / 2 ^ 46) \<and>
   (1000 - (70 + 1 / 2 ^ 46) - 900 < (30::rat)) \<and>
   \<not> shouldAutoScroll (handleScroll
       (Some \<lparr>scrollHeight = Finite 1000, scrollTop = Finite (70 + 1 / 2 ^ 46),
              clientHeight = Finite 900\<rparr>)
       initial_state)"
proof -
  have "to_double (930 - 900) = Finite 30"
    using to_double_int [of 30] by simp
  then have "js_sub (js_sub (Finite 1000) (Finite (70 + 1 / 2 ^ 46))) (Finite 900) = Finite 30"
    by (simp only: js_sub.simps to_double_example_1)
  then have "\<not> shouldAutoScroll (handleScroll
       (Some \<lparr>scrollHeight = Finite 1000, scrollTop = Finite (70 + 1 / 2 ^ 46),
              clientHeight = Finite 900\<rparr>)
       initial_state)"
    by (simp add: handleScroll_def)
  moreover have "1000 - (70 + 1 / 2 ^ 46) - 900 < (30::rat)" by simp
  ultimately show ?thesis using to_double_example_2 by blast
qed

section \<open>The stream lifecycle manager\<close>

text \<open>
  Modelled from the spec: the stream lifecycle manager, \<^verbatim>\<open>streamServiceJournal\<close> of
  the module \<^verbatim>\<open>../api\<close>, which the component imports and which is not among the sources.
  A handle is idle until it is opened, streams after that, and is closed by \<^verbatim>\<open>close()\<close>
  or by a transport failure; nothing leaves the closed phase. The manager is driven by one
  request at a time (the core is single-threaded): the opening, a line or a failure from
  the transport, a call of \<^verbatim>\<open>close()\<close>. What it does outward is call \<^verbatim>\<open>onLine\<close>, call
  \<^verbatim>\<open>onError\<close> and release the underlying subscription. A streaming handle passes
  every line on; a failure is reported once and ends the subscription; \<^verbatim>\<open>close()\<close>
  releases it; a closed handle ignores whatever still arrives.
\<close>

datatype phase = Idle | Streaming | Closed

datatype request = Open | Deliver string | Fail string | Close

datatype effect = OnLine string | OnError string | Release

text \<open>Modelled from the spec: one request to the manager of one handle.\<close>

fun manager_step :: "phase \<Rightarrow> request \<Rightarrow> phase \<times> effect list" where
  "manager_step Idle Open = (Streaming, [])"
| "manager_step Streaming (Deliver t) = (Streaming, [OnLine t])"
| "manager_step Streaming (Fail m) = (Closed, [OnError m, Release])"
| "manager_step Streaming Close = (Closed, [Release])"
| "manager_step p r = (p, [])"

text \<open>Modelled from the spec: requests one after the other, with all that was done outward.\<close>

fun manager_run :: "phase \<Rightarrow> request list \<Rightarrow> phase \<times> effect list" where
  "manager_run p [] = (p, [])"
| "manager_run p (r # rs) =
     (fst (manager_run (fst (manager_step p r)) rs),
      snd (manager_step p r) @ snd (manager_run (fst (manager_step p r)) rs))"

lemma manager_run_append:
  "manager_run p (a @ b) =
     (fst (manager_run (fst (manager_run p a)) b),
      snd (manager_run p a) @ snd (manager_run (fst (manager_run p a)) b))"
  by (induction a arbitrary: p) simp_all

lemma manager_step_Closed: "manager_step Closed r = (Closed, [])"
  by (cases r) simp_all

lemma manager_run_Closed: "manager_run Closed rs = (Closed, [])"
  by (induction rs) (simp_all add: manager_step_Closed)

lemma release_count:
  "(fst (manager_run Streaming rs) = Streaming \<and>
      count_list (snd (manager_run Streaming rs)) Release = 0) \<or>
   (fst (manager_run Streaming rs) = Closed \<and>
      count_list (snd (manager_run Streaming rs)) Release = 1)"
proof (induction rs rule: rev_induct)
  case Nil
  show ?case by simp
next
  case (snoc r rs)
  from snoc show ?case
  proof
    assume "fst (manager_run Streaming rs) = Streaming \<and>
      count_list (snd (manager_run Streaming rs)) Release = 0"
    then show ?thesis by (cases r) (simp_all add: manager_run_append)
  next
    assume "fst (manager_run Streaming rs) = Closed \<and>
      count_list (snd (manager_run Streaming rs)) Release = 1"
    then show ?thesis by (simp add: manager_run_append manager_step_Closed)
  qed
qed

lemma closed_after_Close: "fst (manager_run Streaming (a @ [Close])) = Closed"
  using release_count [of a]
  by (auto simp: manager_run_append)

lemma closed_after_Fail: "fst (manager_run Streaming (a @ [Fail m])) = Closed"
  using release_count [of a]
  by (auto simp: manager_run_append)

lemma nothing_after_closing:
  assumes "fst (manager_run p (a @ [r])) = Closed"
  shows "manager_run p (a @ r # b) = manager_run p (a @ [r])"
proof -
  have "manager_run p (a @ r # b) = manager_run p ((a @ [r]) @ b)" by simp
  also have "\<dots> = manager_run p (a @ [r])"
    unfolding manager_run_append [of p "a @ [r]" b] assms manager_run_Closed
    by (simp add: assms [symmetric])
  finally show ?thesis .
qed

text \<open>
  Claim C6. A handle streams once opened. A second \<^verbatim>\<open>close()\<close> right after the first
  changes neither the phase nor anything done outward, whatever came before and whatever
  comes after; with a \<^verbatim>\<open>close()\<close> among the requests the subscription is released exactly
  once; and whatever the transport still delivers after a \<^verbatim>\<open>close()\<close> or after a
  failure, nothing more is called: the requests after it add nothing to what was done.
\<close>

theorem close_idempotent:
  "manager_step Idle Open = (Streaming, []) \<and>
   manager_run Streaming (a @ Close # Close # b) = manager_run Streaming (a @ Close # b) \<and>
   count_list (snd (manager_run Streaming (a @ Close # b))) Release = 1 \<and>
   manager_run Streaming (a @ Close # b) = manager_run Streaming (a @ [Close]) \<and>
   manager_run Streaming (a @ Fail m # b) = manager_run Streaming (a @ [Fail m]) \<and>
   manager_run Closed b = (Closed, [])"
proof -
  have 1: "manager_run Streaming (a @ Close # b) = manager_run Streaming (a @ [Close])" for b
    by (rule nothing_after_closing [OF closed_after_Close])
  have 2: "manager_run Streaming (a @ Fail m # b) = manager_run Streaming (a @ [Fail m])"
    by (rule nothing_after_closing [OF closed_after_Fail])
  have 3: "count_list (snd (manager_run Streaming (a @ [Close]))) Release = 1"
    using release_count [of "a @ [Close]"] closed_after_Close [of a] by simp
  from 1 [of "Close # b"] 1 [of b] 2 3 manager_run_Closed show ?thesis by simp
qed

end
